theory Spec2Isabelle
  imports Main "HOL-Library.Monad_Syntax" "HOL-Library.Multiset"
begin

section \<open>The process tree printer (cpp_tutorial_9aeffd.cpp)\<close>

subsection \<open>Data\<close>

text \<open>
  \<^verbatim>\<open>struct ProcessInfo { int pid; int ppid; std::string name; int level; }\<close>.
  The program never does arithmetic on \<open>pid\<close> or \<open>ppid\<close>: it compares them with
  \<open>==\<close> and \<open><\<close> only. The depth passed to \<open>printProcessTree\<close> is incremented
  once per nested call, so it stays far below the range of a 32-bit \<open>int\<close> on any
  run that fits the call stack. All of them are modelled as mathematical integers.
\<close>

record ProcessInfo =
  pid :: int
  ppid :: int
  name :: string
  level :: int

subsection \<open>Text written to the console\<close>

text \<open>\<^verbatim>\<open>std::cout << int\<close>: the decimal digits, with a leading minus sign.\<close>

definition digit_char :: "nat \<Rightarrow> char" where
  "digit_char d = ''0123456789'' ! d"

fun show_nat :: "nat \<Rightarrow> string" where
  "show_nat n =
     (if n < 10 then [digit_char n] else show_nat (n div 10) @ [digit_char (n mod 10)])"

declare show_nat.simps [simp del]

definition show_int :: "int \<Rightarrow> string" where
  "show_int i = (if i < 0 then CHR ''-'' # show_nat (nat (- i)) else show_nat (nat i))"

text \<open>
  One pass of the body of the printing loop (lines 92-99) writes one line for one child
  at one depth. The traversal below records which child was printed at which depth; the
  text of the line is \<open>format_line\<close> of that pair.
\<close>

type_synonym printed = "ProcessInfo \<times> int"

definition format_line :: "printed \<Rightarrow> string" where
  "format_line e =
     concat (replicate (nat (snd e)) ''  '') @ ''+-- '' @ name (fst e) @ '' (PID: '' @
     show_int (pid (fst e)) @ '', PPID: '' @ show_int (ppid (fst e)) @ '')''"

subsection \<open>printProcessTree\<close>

text \<open>
  Lines 79-89: the records whose \<open>ppid\<close> is the current pid, in the order of the
  vector, then sorted by \<open>pid\<close> with \<open><\<close>. \<^verbatim>\<open>std::sort\<close> leaves the relative order
  of records with equal \<open>pid\<close> open; the model keeps them in the order of the vector.
\<close>

definition children_of :: "ProcessInfo list \<Rightarrow> int \<Rightarrow> ProcessInfo list" where
  "children_of all_processes current_pid =
     sort_key pid (filter (\<lambda>proc. ppid proc = current_pid) all_processes)"

text \<open>
  Lines 92-102: the loop over the sorted children. Each pass prints the child and then
  calls \<open>printProcessTree\<close> on the child's pid one level deeper, that is, runs this same
  loop over the child's own sorted children. The code has no bound on the depth and
  keeps no set of visited pids, so the recursion need not end. This first reading is
  the recursion as it is written, on a call stack without bound: a call that never
  returns has the value \<open>None\<close>. The run on a call stack of a given size is
  \<open>printProcessTree_stack\<close> below.
\<close>

partial_function (option) printChildren ::
  "ProcessInfo list \<Rightarrow> ProcessInfo list \<Rightarrow> int \<Rightarrow> printed list option" where
  "printChildren all_processes children lvl =
     (case children of
        [] \<Rightarrow> Some []
      | child # rest \<Rightarrow>
          do {
            sub \<leftarrow> printChildren all_processes (children_of all_processes (pid child)) (lvl + 1);
            more \<leftarrow> printChildren all_processes rest lvl;
            Some ((child, lvl) # sub @ more)
          })"

definition printProcessTree :: "ProcessInfo list \<Rightarrow> int \<Rightarrow> int \<Rightarrow> printed list option" where
  "printProcessTree all_processes current_pid lvl =
     printChildren all_processes (children_of all_processes current_pid) lvl"

text \<open>
  The loop of lines 92-102 written over \<open>printProcessTree\<close> itself, to state the
  recursion of the source as it stands (lemma \<open>printProcessTree_rec\<close>).
\<close>

fun for_children ::
  "(ProcessInfo \<Rightarrow> printed list option) \<Rightarrow> int \<Rightarrow> ProcessInfo list \<Rightarrow> printed list option" where
  "for_children recurse lvl [] = Some []"
| "for_children recurse lvl (child # rest) =
     do {
       sub \<leftarrow> recurse child;
       more \<leftarrow> for_children recurse lvl rest;
       Some ((child, lvl) # sub @ more)
     }"

subsection \<open>printProcessTree on a call stack of a given size\<close>

text \<open>
  Every nested call of \<open>printProcessTree\<close> takes a frame of the call stack (the call of
  line 101 is not the last action of its caller), and a process whose stack is used up
  is killed. A call has one of two outcomes: it returns, having printed its lines, or
  the stack runs out below it, after the lines printed so far. Each line ends with
  \<^verbatim>\<open>std::endl\<close>, so it is written before the next call is made.
\<close>

datatype outcome = Returned "printed list" | StackExhausted "printed list"

fun printed_lines :: "outcome \<Rightarrow> printed list" where
  "printed_lines (Returned out) = out"
| "printed_lines (StackExhausted out) = out"

text \<open>
  The loop of lines 92-102 again: when the stack runs out in the call for a child, the
  loop is not continued, and the remaining children are not printed.
\<close>

fun run_children ::
  "(ProcessInfo \<Rightarrow> outcome) \<Rightarrow> int \<Rightarrow> ProcessInfo list \<Rightarrow> outcome" where
  "run_children recurse lvl [] = Returned []"
| "run_children recurse lvl (child # rest) =
     (case recurse child of
        StackExhausted sub \<Rightarrow> StackExhausted ((child, lvl) # sub)
      | Returned sub \<Rightarrow>
          (case run_children recurse lvl rest of
             StackExhausted others \<Rightarrow> StackExhausted ((child, lvl) # sub @ others)
           | Returned others \<Rightarrow> Returned ((child, lvl) # sub @ others)))"

text \<open>
  \<open>frames\<close> is the number of nested calls of \<open>printProcessTree\<close> that the stack
  still holds. With none left the call cannot be made; otherwise the call runs its loop
  with one frame fewer for the calls it makes.
\<close>

primrec printProcessTree_stack ::
  "nat \<Rightarrow> ProcessInfo list \<Rightarrow> int \<Rightarrow> int \<Rightarrow> outcome" where
  "printProcessTree_stack 0 all_processes current_pid lvl = StackExhausted []"
| "printProcessTree_stack (Suc frames) all_processes current_pid lvl =
     run_children (\<lambda>child. printProcessTree_stack frames all_processes (pid child) (lvl + 1))
       lvl (children_of all_processes current_pid)"

subsection \<open>main\<close>

definition root_line :: string where
  "root_line = ''Root (System) (PID: 0, PPID: 0)''"

text \<open>
  \<open>render\<close> is not a function of the source. It is the pair of statements of \<open>main\<close>
  that print the tree (lines 121-122: the root line, then \<open>printProcessTree\<close> at depth
  0), with the root id, which \<open>main\<close> fixes to 0, as a parameter, on a call stack
  without bound. \<open>main\<close> reaches these statements only after its check of lines
  115-118; what the program prints and how it ends is \<open>main\<close> below.
\<close>

definition render :: "ProcessInfo list \<Rightarrow> int \<Rightarrow> string list option" where
  "render all_processes root_id =
     do {
       evs \<leftarrow> printProcessTree all_processes root_id 0;
       Some (root_line # map format_line evs)
     }"

text \<open>
  What \<open>getAllProcessInfo\<close> meets when it runs: \<^verbatim>\<open>opendir("/proc")\<close> fails, or it
  succeeds and the scan loop (lines 35-70) pushes some records. Reading and parsing
  the entries is outside the model: the records pushed are given.
\<close>

datatype proc_dir = OpenFailed | Scanned "ProcessInfo list"

text \<open>The vector returned, and the lines written to \<^verbatim>\<open>std::cerr\<close>.\<close>

fun getAllProcessInfo :: "proc_dir \<Rightarrow> ProcessInfo list \<times> string list" where
  "getAllProcessInfo OpenFailed = ([], [''Error: Could not open /proc directory.''])"
| "getAllProcessInfo (Scanned processes) = (processes, [])"

text \<open>
  How the process ends: \<open>main\<close> returns a status, or the process is killed because
  the call stack ran out during the traversal.
\<close>

datatype ending = Exited int | Killed

record run =
  ended :: ending
  stdout :: "string list"
  stderr :: "string list"

definition no_info_message :: string where
  "no_info_message =
     ''No process information retrieved. This might happen on non-Linux/macOS systems or due to permissions.''"

text \<open>
  Lines 105-125. \<open>frames\<close> is the number of nested calls of \<open>printProcessTree\<close> that
  the call stack holds below \<open>main\<close>.
\<close>

definition main :: "nat \<Rightarrow> proc_dir \<Rightarrow> run" where
  "main frames d =
     (let (all_processes, errs) = getAllProcessInfo d in
      if all_processes = [] then
        \<lparr>ended = Exited 1,
         stdout = [''Gathering process information...''],
         stderr = errs @ [no_info_message]\<rparr>
      else
        (case printProcessTree_stack frames all_processes 0 0 of
           Returned tree \<Rightarrow>
             \<lparr>ended = Exited 0,
              stdout = [''Gathering process information...'',
                        ''Building and printing process tree...'', root_line] @
                       map format_line tree,
              stderr = errs\<rparr>
         | StackExhausted tree \<Rightarrow>
             \<lparr>ended = Killed,
              stdout = [''Gathering process information...'',
                        ''Building and printing process tree...'', root_line] @
                       map format_line tree,
              stderr = errs\<rparr>))"

subsection \<open>The child relation, and the record sets used below\<close>

text \<open>The edges parent pid to child pid that the records give.\<close>

definition edges :: "ProcessInfo list \<Rightarrow> (int \<times> int) set" where
  "edges all_processes = (\<lambda>r. (ppid r, pid r)) ` set all_processes"

text \<open>
  The records below a pid: those whose parent is that pid, or the pid of a record below
  it (the records a chain of \<open>ppid = pid\<close> links joins to it).
\<close>

definition descendants :: "ProcessInfo list \<Rightarrow> int \<Rightarrow> ProcessInfo set" where
  "descendants all_processes p =
     {r \<in> set all_processes. (p, ppid r) \<in> (edges all_processes)\<^sup>*}"

definition cycle_records :: "ProcessInfo list" where
  "cycle_records =
     [\<lparr>pid = 5, ppid = 6, name = ''a'', level = 0\<rparr>,
      \<lparr>pid = 6, ppid = 5, name = ''b'', level = 0\<rparr>]"

text \<open>Four processes: init, its children shell and editor, and a child of shell.\<close>

definition tree_records :: "ProcessInfo list" where
  "tree_records =
     [\<lparr>pid = 1, ppid = 0, name = ''init'', level = 0\<rparr>,
      \<lparr>pid = 2, ppid = 1, name = ''shell'', level = 0\<rparr>,
      \<lparr>pid = 3, ppid = 1, name = ''editor'', level = 0\<rparr>,
      \<lparr>pid = 4, ppid = 2, name = ''child'', level = 0\<rparr>]"

text \<open>Two records with the same pid 1 under the root, and one child of pid 1.\<close>

definition twin_a :: ProcessInfo where
  "twin_a = \<lparr>pid = 1, ppid = 0, name = ''a'', level = 0\<rparr>"

definition twin_b :: ProcessInfo where
  "twin_b = \<lparr>pid = 1, ppid = 0, name = ''b'', level = 0\<rparr>"

definition twin_child :: ProcessInfo where
  "twin_child = \<lparr>pid = 2, ppid = 1, name = ''c'', level = 0\<rparr>"

definition twin_records :: "ProcessInfo list" where
  "twin_records = [twin_a, twin_b, twin_child]"

text \<open>A record that names itself as its parent, under the root id 0 of \<open>main\<close>.\<close>

definition self_parent_records :: "ProcessInfo list" where
  "self_parent_records = [\<lparr>pid = 0, ppid = 0, name = ''idle'', level = 0\<rparr>]"

text \<open>
  The two records with pid 1 under the root again, this time with a child of pid 1 that
  has pid 0: the root id lies on a cycle.
\<close>

definition back_child :: ProcessInfo where
  "back_child = \<lparr>pid = 0, ppid = 1, name = ''c'', level = 0\<rparr>"

definition twin_cycle_records :: "ProcessInfo list" where
  "twin_cycle_records = [twin_a, twin_b, back_child]"

text \<open>The pids below a pid in the child relation.\<close>

definition pids_below :: "ProcessInfo list \<Rightarrow> int \<Rightarrow> int set" where
  "pids_below all_processes p = {c. (p, c) \<in> (edges all_processes)\<^sup>+}"

section \<open>The router (ruby_guide_b966dd.rb)\<close>

subsection \<open>Verbs and strings\<close>

text \<open>\<^verbatim>\<open>HTTP_METHODS = %i[get post put delete]\<close>: the four symbols, and their names.\<close>

datatype method_name = get | post | put | delete

definition HTTP_METHODS :: "method_name list" where
  "HTTP_METHODS = [get, post, put, delete]"

fun to_s :: "method_name \<Rightarrow> string" where
  "to_s get = ''get''"
| "to_s post = ''post''"
| "to_s put = ''put''"
| "to_s delete = ''delete''"

text \<open>
  \<^verbatim>\<open>String#upcase\<close> on the letters a to z; every other character is left as it is.
  Verbs and paths are taken to be ASCII text.
\<close>

definition letter_pairs :: "(char \<times> char) list" where
  "letter_pairs = zip ''abcdefghijklmnopqrstuvwxyz'' ''ABCDEFGHIJKLMNOPQRSTUVWXYZ''"

definition upcase_char :: "char \<Rightarrow> char" where
  "upcase_char c = (case map_of letter_pairs c of Some u \<Rightarrow> u | None \<Rightarrow> c)"

definition upcase :: "string \<Rightarrow> string" where
  "upcase s = map upcase_char s"



subsection \<open>The route table\<close>

text \<open>
  An action is the block given to \<open>get\<close>, \<open>post\<close>, \<open>put\<close> or \<open>delete\<close>: called
  with no argument, it returns the response. A method called without a block stores
  \<open>nil\<close> (\<open>None\<close>). \<open>@routes\<close> maps the upper-case verb to a hash from path to action.
\<close>

type_synonym block = "unit \<Rightarrow> string"

type_synonym path_table = "string \<rightharpoonup> block option"

record Router =
  routes :: "string \<rightharpoonup> path_table"

text \<open>\<^verbatim>\<open>@routes = Hash.new { |hash, key| hash[key] = {} }\<close>: no key yet.\<close>

definition initialize :: Router where
  "initialize = \<lparr>routes = Map.empty\<rparr>"

text \<open>
  \<^verbatim>\<open>@routes[key]\<close>: the hash stored under the key; for a key that is not there the
  default block of \<open>initialize\<close> runs, stores an empty hash under the key and returns it.
\<close>

definition routes_fetch :: "Router \<Rightarrow> string \<Rightarrow> path_table \<times> Router" where
  "routes_fetch r key =
     (case routes r key of
        Some h \<Rightarrow> (h, r)
      | None \<Rightarrow> (Map.empty, r\<lparr>routes := (routes r)(key \<mapsto> Map.empty)\<rparr>))"

text \<open>
  Lines 45-59: the body that \<open>define_method\<close> installs under each method name. It
  returns the line it prints and the router after the assignment
  \<^verbatim>\<open>@routes[method_name.to_s.upcase][path] = block\<close>.
\<close>

definition define_method ::
  "method_name \<Rightarrow> string \<Rightarrow> block option \<Rightarrow> Router \<Rightarrow> string list \<times> Router" where
  "define_method method_name path blk r =
     (let key = upcase (to_s method_name);
          (h, r') = routes_fetch r key
      in ([''Registering '' @ key @ '' '' @ path],
          r'\<lparr>routes := (routes r')(key \<mapsto> h(path \<mapsto> blk))\<rparr>))"

text \<open>
  Lines 65-87: the response, the line printed and the router afterwards. The verb is
  given by its text (\<open>to_s\<close> of the symbol or string passed in).
\<close>

definition dispatch :: "Router \<Rightarrow> string \<Rightarrow> string \<Rightarrow> string \<times> string list \<times> Router" where
  "dispatch r http_method path =
     (let normalized_method = upcase http_method;
          (h, r') = routes_fetch r normalized_method;
          handler = (case h path of None \<Rightarrow> None | Some b \<Rightarrow> b)
      in case handler of
           Some blk \<Rightarrow>
             (blk (), [''-> Matched route: '' @ normalized_method @ '' '' @ path], r')
         | None \<Rightarrow>
             (''404 Not Found'',
              [''-> No route matched: '' @ normalized_method @ '' '' @ path], r'))"

text \<open>What the table holds for a verb key and a path: the stored action, if any.\<close>

definition registered :: "Router \<Rightarrow> string \<Rightarrow> string \<Rightarrow> block option option" where
  "registered r key path = (case routes r key of None \<Rightarrow> None | Some h \<Rightarrow> h path)"

section \<open>Facts about the printer\<close>

subsection \<open>The recursion of the source\<close>

lemma printChildren_Nil: "printChildren all_processes [] lvl = Some []"
  by (subst printChildren.simps) simp

lemma printChildren_Cons:
  "printChildren all_processes (child # rest) lvl =
     do {
       sub \<leftarrow> printProcessTree all_processes (pid child) (lvl + 1);
       more \<leftarrow> printChildren all_processes rest lvl;
       Some ((child, lvl) # sub @ more)
     }"
  by (subst printChildren.simps) (simp add: printProcessTree_def)

lemma printChildren_for_children:
  "printChildren all_processes cs lvl =
     for_children (\<lambda>child. printProcessTree all_processes (pid child) (lvl + 1)) lvl cs"
  by (induction cs) (simp_all add: printChildren_Nil printChildren_Cons)

lemma printProcessTree_rec:
  "printProcessTree all_processes current_pid lvl =
     for_children (\<lambda>child. printProcessTree all_processes (pid child) (lvl + 1)) lvl
       (children_of all_processes current_pid)"
  unfolding printProcessTree_def [of all_processes current_pid lvl]
  by (rule printChildren_for_children)

lemma children_of_Nil: "children_of [] current_pid = []"
  by (simp add: children_of_def)

lemma set_children_of:
  "set (children_of all_processes current_pid) = {r \<in> set all_processes. ppid r = current_pid}"
  by (auto simp: children_of_def)

lemma for_children_Some:
  "for_children recurse lvl cs = Some out \<Longrightarrow>
     (\<forall>c \<in> set cs. \<exists>s. recurse c = Some s) \<and>
     out = concat (map (\<lambda>c. (c, lvl) # the (recurse c)) cs)"
proof (induction cs arbitrary: out)
  case Nil
  then show ?case by simp
next
  case (Cons c cs)
  from Cons.prems obtain s m where
    s: "recurse c = Some s" and m: "for_children recurse lvl cs = Some m" and
    out: "out = (c, lvl) # s @ m"
    by (auto split: bind_splits)
  from Cons.IH [OF m] s out show ?case by simp
qed

lemma printProcessTree_blocks:
  assumes "printProcessTree all_processes current_pid lvl = Some out"
  shows "(\<forall>c \<in> set (children_of all_processes current_pid).
            \<exists>s. printProcessTree all_processes (pid c) (lvl + 1) = Some s) \<and>
         out = concat (map (\<lambda>c. (c, lvl) # the (printProcessTree all_processes (pid c) (lvl + 1)))
                        (children_of all_processes current_pid))"
proof -
  from assms have
    "for_children (\<lambda>c. printProcessTree all_processes (pid c) (lvl + 1)) lvl
       (children_of all_processes current_pid) = Some out"
    by (simp add: printProcessTree_rec [symmetric])
  then show ?thesis by (rule for_children_Some)
qed

subsection \<open>The run on a call stack\<close>

lemma run_children_Returned:
  "run_children recurse lvl cs = Returned out \<Longrightarrow>
     (\<forall>c \<in> set cs. \<exists>s. recurse c = Returned s) \<and>
     out = concat (map (\<lambda>c. (c, lvl) # printed_lines (recurse c)) cs)"
proof (induction cs arbitrary: out)
  case Nil
  then show ?case by simp
next
  case (Cons c cs)
  from Cons.prems obtain s m where
    s: "recurse c = Returned s" and m: "run_children recurse lvl cs = Returned m" and
    out: "out = (c, lvl) # s @ m"
    by (auto split: outcome.splits)
  from Cons.IH [OF m] s out show ?case by simp
qed

lemma run_children_returns:
  "(\<And>c. c \<in> set cs \<Longrightarrow> \<exists>s. recurse c = Returned s) \<Longrightarrow>
     \<exists>out. run_children recurse lvl cs = Returned out"
proof (induction cs)
  case Nil
  then show ?case by simp
next
  case (Cons c cs)
  then obtain s where "recurse c = Returned s" by (meson list.set_intros(1))
  moreover from Cons obtain m where "run_children recurse lvl cs = Returned m"
    by (meson list.set_intros(2))
  ultimately show ?case by simp
qed

lemma run_children_for_children:
  assumes "run_children recurse lvl cs = Returned out"
    and "\<And>c s. c \<in> set cs \<Longrightarrow> recurse c = Returned s \<Longrightarrow> unbounded c = Some s"
  shows "for_children unbounded lvl cs = Some out"
  using assms
proof (induction cs arbitrary: out)
  case Nil
  then show ?case by simp
next
  case (Cons c cs)
  from Cons.prems(1) obtain s m where
    s: "recurse c = Returned s" and m: "run_children recurse lvl cs = Returned m" and
    out: "out = (c, lvl) # s @ m"
    by (auto split: outcome.splits)
  have "unbounded c = Some s" using s Cons.prems(2) by simp
  moreover have "for_children unbounded lvl cs = Some m"
    using m Cons.prems(2) by (intro Cons.IH) auto
  ultimately show ?case using out by simp
qed

lemma stack_Returned_unbounded:
  "printProcessTree_stack frames all_processes current_pid lvl = Returned out \<Longrightarrow>
     printProcessTree all_processes current_pid lvl = Some out"
proof (induction frames arbitrary: current_pid lvl out)
  case 0
  then show ?case by simp
next
  case (Suc frames)
  from Suc.prems have
    "run_children (\<lambda>child. printProcessTree_stack frames all_processes (pid child) (lvl + 1))
       lvl (children_of all_processes current_pid) = Returned out"
    by simp
  then have
    "for_children (\<lambda>child. printProcessTree all_processes (pid child) (lvl + 1))
       lvl (children_of all_processes current_pid) = Some out"
    by (rule run_children_for_children) (rule Suc.IH)
  then show ?case by (simp add: printProcessTree_rec [symmetric])
qed

lemma run_children_mono:
  assumes "run_children recurse lvl cs = Returned out"
    and "\<And>c s. c \<in> set cs \<Longrightarrow> recurse c = Returned s \<Longrightarrow> deeper c = Returned s"
  shows "run_children deeper lvl cs = Returned out"
  using assms
proof (induction cs arbitrary: out)
  case Nil
  then show ?case by simp
next
  case (Cons c cs)
  from Cons.prems(1) obtain s m where
    s: "recurse c = Returned s" and m: "run_children recurse lvl cs = Returned m" and
    out: "out = (c, lvl) # s @ m"
    by (auto split: outcome.splits)
  have "deeper c = Returned s" using s Cons.prems(2) by simp
  moreover have "run_children deeper lvl cs = Returned m"
    using m Cons.prems(2) by (intro Cons.IH) auto
  ultimately show ?case using out by simp
qed

lemma stack_Suc:
  "printProcessTree_stack frames all_processes current_pid lvl = Returned out \<Longrightarrow>
     printProcessTree_stack (Suc frames) all_processes current_pid lvl = Returned out"
proof (induction frames arbitrary: current_pid lvl out)
  case 0
  then show ?case by simp
next
  case (Suc frames)
  from Suc.prems have
    "run_children (\<lambda>child. printProcessTree_stack frames all_processes (pid child) (lvl + 1))
       lvl (children_of all_processes current_pid) = Returned out"
    by simp
  then have
    "run_children (\<lambda>child. printProcessTree_stack (Suc frames) all_processes (pid child) (lvl + 1))
       lvl (children_of all_processes current_pid) = Returned out"
    by (rule run_children_mono) (rule Suc.IH)
  then show ?case by simp
qed

lemma stack_more_frames:
  assumes "printProcessTree_stack frames all_processes current_pid lvl = Returned out"
    and "frames \<le> frames'"
  shows "printProcessTree_stack frames' all_processes current_pid lvl = Returned out"
  using assms(2,1) by (induction rule: dec_induct) (simp_all add: stack_Suc del: printProcessTree_stack.simps)

lemma printChildren_some_stack:
  assumes "printChildren all_processes cs lvl = Some out"
  shows "\<exists>frames. run_children
           (\<lambda>child. printProcessTree_stack frames all_processes (pid child) (lvl + 1)) lvl cs =
         Returned out"
proof (rule printChildren.raw_induct
    [where P = "\<lambda>al cs lvl out. \<exists>frames. run_children
           (\<lambda>child. printProcessTree_stack frames al (pid child) (lvl + 1)) lvl cs =
         Returned out", OF _ assms])
  fix f :: "ProcessInfo list \<Rightarrow> ProcessInfo list \<Rightarrow> int \<Rightarrow> printed list option"
  fix al cs lvl out
  assume IH: "\<And>al cs lvl out. f al cs lvl = Some out \<Longrightarrow>
     \<exists>frames. run_children (\<lambda>child. printProcessTree_stack frames al (pid child) (lvl + 1)) lvl cs =
       Returned out"
  assume step: "(case cs of
        [] \<Rightarrow> Some []
      | child # rest \<Rightarrow>
          do {
            sub \<leftarrow> f al (children_of al (pid child)) (lvl + 1);
            more \<leftarrow> f al rest lvl;
            Some ((child, lvl) # sub @ more)
          }) = Some out"
  show "\<exists>frames. run_children (\<lambda>child. printProcessTree_stack frames al (pid child) (lvl + 1)) lvl cs =
       Returned out"
  proof (cases cs)
    case Nil
    with step show ?thesis by simp
  next
    case (Cons child rest)
    with step obtain sub others where
      sub: "f al (children_of al (pid child)) (lvl + 1) = Some sub" and
      others: "f al rest lvl = Some others" and
      out: "out = (child, lvl) # sub @ others"
      by (auto split: bind_splits)
    from IH [OF sub] obtain n1 where
      "printProcessTree_stack (Suc n1) al (pid child) (lvl + 1) = Returned sub"
      by auto
    moreover from IH [OF others] obtain n2 where
      n2: "run_children (\<lambda>child. printProcessTree_stack n2 al (pid child) (lvl + 1)) lvl rest =
           Returned others"
      by auto
    define n where "n = max (Suc n1) n2"
    have "Suc n1 \<le> n" "n2 \<le> n" by (simp_all add: n_def)
    ultimately have a: "printProcessTree_stack n al (pid child) (lvl + 1) = Returned sub"
      by (meson stack_more_frames)
    have b: "run_children (\<lambda>child. printProcessTree_stack n al (pid child) (lvl + 1)) lvl rest =
           Returned others"
      using n2 by (rule run_children_mono) (use \<open>n2 \<le> n\<close> in \<open>meson stack_more_frames\<close>)
    from a b out have
      "run_children (\<lambda>child. printProcessTree_stack n al (pid child) (lvl + 1)) lvl (child # rest) =
       Returned out"
      by simp
    with Cons show ?thesis by blast
  qed
qed

lemma unbounded_iff_some_stack:
  "printProcessTree all_processes current_pid lvl = Some out \<longleftrightarrow>
     (\<exists>frames. printProcessTree_stack frames all_processes current_pid lvl = Returned out)"
proof
  assume "printProcessTree all_processes current_pid lvl = Some out"
  then obtain frames where
    "run_children (\<lambda>child. printProcessTree_stack frames all_processes (pid child) (lvl + 1)) lvl
       (children_of all_processes current_pid) = Returned out"
    unfolding printProcessTree_def using printChildren_some_stack by blast
  then have "printProcessTree_stack (Suc frames) all_processes current_pid lvl = Returned out"
    by simp
  then show "\<exists>frames. printProcessTree_stack frames all_processes current_pid lvl = Returned out" ..
next
  assume "\<exists>frames. printProcessTree_stack frames all_processes current_pid lvl = Returned out"
  then show "printProcessTree all_processes current_pid lvl = Some out"
    using stack_Returned_unbounded by blast
qed

lemma stack_Returned_blocks:
  assumes "printProcessTree_stack frames all_processes current_pid lvl = Returned out"
  shows "(\<forall>c \<in> set (children_of all_processes current_pid).
            \<exists>s. printProcessTree_stack (frames - 1) all_processes (pid c) (lvl + 1) = Returned s) \<and>
         out = concat (map (\<lambda>c. (c, lvl) #
                 printed_lines (printProcessTree_stack (frames - 1) all_processes (pid c) (lvl + 1)))
                 (children_of all_processes current_pid))"
proof (cases frames)
  case 0
  with assms show ?thesis by simp
next
  case (Suc n)
  with assms have
    "run_children (\<lambda>child. printProcessTree_stack n all_processes (pid child) (lvl + 1)) lvl
       (children_of all_processes current_pid) = Returned out"
    by simp
  from run_children_Returned [OF this] Suc show ?thesis by simp
qed

subsection \<open>Runs on the example records\<close>



lemma twin_stack_3:
  "printProcessTree_stack 3 twin_records 0 0 =
     Returned [(twin_a, 0), (twin_child, 1), (twin_b, 0), (twin_child, 1)]"
  by (simp add: numeral_3_eq_3 children_of_def twin_records_def twin_a_def twin_b_def
      twin_child_def)

lemma tree_stack_2:
  "printProcessTree_stack 2 tree_records 0 0 =
     StackExhausted [(\<lparr>pid = 1, ppid = 0, name = ''init'', level = 0\<rparr>, 0),
                     (\<lparr>pid = 2, ppid = 1, name = ''shell'', level = 0\<rparr>, 1)]"
  by (simp add: numeral_2_eq_2 children_of_def tree_records_def)

lemma tree_main_5:
  "main 5 (Scanned tree_records) =
     \<lparr>ended = Exited 0,
      stdout = [''Gathering process information...'',
                ''Building and printing process tree...'',
                ''Root (System) (PID: 0, PPID: 0)'',
                ''+-- init (PID: 1, PPID: 0)'',
                ''  +-- shell (PID: 2, PPID: 1)'',
                ''    +-- child (PID: 4, PPID: 2)'',
                ''  +-- editor (PID: 3, PPID: 1)''],
      stderr = []\<rparr>"
  by (simp add: main_def eval_nat_numeral children_of_def tree_records_def format_line_def
      show_int_def show_nat.simps digit_char_def root_line_def)

lemma twin_cycle_stack_4:
  "printProcessTree_stack 4 twin_cycle_records 0 0 =
     StackExhausted [(twin_a, 0), (back_child, 1), (twin_a, 2), (back_child, 3)]"
  by (simp add: eval_nat_numeral children_of_def twin_cycle_records_def twin_a_def twin_b_def
      back_child_def)

lemma identical_entries_both_printed:
  "printProcessTree_stack 2 [twin_a, twin_a] 0 0 = Returned [(twin_a, 0), (twin_a, 0)]"
  by (simp add: eval_nat_numeral children_of_def twin_a_def)

subsection \<open>No records\<close>

text \<open>
  C3 (amended): on the empty record sequence the traversal from root id 0 prints no
  line and returns, on any stack that holds the call, so the empty input is not an
  error of the traversal. The root line is printed by \<open>main\<close> only after its check of
  lines 115-118: with no records \<open>main\<close> prints no root line, writes its message to
  the error stream and exits with status 1.
\<close>

theorem empty_records_no_root_line:
  "printProcessTree_stack (Suc frames) [] 0 0 = Returned [] \<and>
   printProcessTree [] 0 0 = Some [] \<and>
   main frames (Scanned []) =
     \<lparr>ended = Exited 1, stdout = [''Gathering process information...''],
      stderr = [no_info_message]\<rparr> \<and>
   root_line \<notin> set (stdout (main frames (Scanned [])))"
  by (simp add: children_of_Nil printProcessTree_def printChildren_Nil main_def root_line_def)

text \<open>
  C3 as stated fails: the run of the program on the empty record sequence prints the
  line of line 112 only, not the root line, and ends with status 1.
\<close>

theorem empty_records_exit_1:
  "stdout (main 1 (Scanned [])) = [''Gathering process information...''] \<and>
   root_line \<notin> set (stdout (main 1 (Scanned []))) \<and>
   ended (main 1 (Scanned [])) = Exited 1"
  by (simp add: main_def root_line_def)

subsection \<open>Cycles of the child relation\<close>

lemma edges_iff:
  "(p, c) \<in> edges all_processes \<longleftrightarrow> (\<exists>r \<in> set all_processes. ppid r = p \<and> pid r = c)"
  by (auto simp: edges_def)

lemma cycle_has_child_on_cycle:
  assumes "(p, p) \<in> (edges all_processes)\<^sup>+"
  shows "\<exists>r \<in> set (children_of all_processes p). (pid r, pid r) \<in> (edges all_processes)\<^sup>+"
proof -
  from assms obtain z where z: "(p, z) \<in> edges all_processes" "(z, p) \<in> (edges all_processes)\<^sup>*"
    by (meson tranclD)
  from z(1) obtain r where r: "r \<in> set all_processes" "ppid r = p" "pid r = z"
    by (auto simp: edges_iff)
  have "(pid r, pid r) \<in> (edges all_processes)\<^sup>+"
    using z r by (metis rtrancl_into_trancl1)
  moreover have "r \<in> set (children_of all_processes p)"
    using r by (simp add: set_children_of)
  ultimately show ?thesis by blast
qed

lemma printChildren_returns_no_cycle:
  assumes "printChildren all_processes cs lvl = Some out"
  shows "\<forall>c \<in> set cs. (pid c, pid c) \<notin> (edges all_processes)\<^sup>+"
proof (rule printChildren.raw_induct
    [where P = "\<lambda>al cs lvl out. \<forall>c \<in> set cs. (pid c, pid c) \<notin> (edges al)\<^sup>+", OF _ assms])
  fix f :: "ProcessInfo list \<Rightarrow> ProcessInfo list \<Rightarrow> int \<Rightarrow> printed list option"
  fix al cs lvl out
  assume IH: "\<And>al cs lvl out. f al cs lvl = Some out \<Longrightarrow>
                 \<forall>c \<in> set cs. (pid c, pid c) \<notin> (edges al)\<^sup>+"
  assume step: "(case cs of
        [] \<Rightarrow> Some []
      | child # rest \<Rightarrow>
          do {
            sub \<leftarrow> f al (children_of al (pid child)) (lvl + 1);
            more \<leftarrow> f al rest lvl;
            Some ((child, lvl) # sub @ more)
          }) = Some out"
  show "\<forall>c \<in> set cs. (pid c, pid c) \<notin> (edges al)\<^sup>+"
  proof (cases cs)
    case Nil
    then show ?thesis by simp
  next
    case (Cons child rest)
    with step obtain sub more where
      sub: "f al (children_of al (pid child)) (lvl + 1) = Some sub" and
      more: "f al rest lvl = Some more"
      by (auto split: bind_splits)
    have "(pid child, pid child) \<notin> (edges al)\<^sup>+"
      using IH [OF sub] cycle_has_child_on_cycle [of "pid child" al] by blast
    moreover have "\<forall>c \<in> set rest. (pid c, pid c) \<notin> (edges al)\<^sup>+"
      using IH [OF more] .
    ultimately show ?thesis using Cons by simp
  qed
qed

lemma printProcessTree_on_cycle:
  assumes "(current_pid, current_pid) \<in> (edges all_processes)\<^sup>+"
  shows "printProcessTree all_processes current_pid lvl = None"
proof (cases "printProcessTree all_processes current_pid lvl")
  case None
  then show ?thesis .
next
  case (Some out)
  then have "\<forall>c \<in> set (children_of all_processes current_pid). (pid c, pid c) \<notin> (edges all_processes)\<^sup>+"
    unfolding printProcessTree_def by (rule printChildren_returns_no_cycle)
  with cycle_has_child_on_cycle [OF assms] show ?thesis by blast
qed

lemma stack_on_cycle:
  assumes "(current_pid, current_pid) \<in> (edges all_processes)\<^sup>+"
  shows "\<exists>out. printProcessTree_stack frames all_processes current_pid lvl = StackExhausted out"
proof (cases "printProcessTree_stack frames all_processes current_pid lvl")
  case (Returned out)
  then have "printProcessTree all_processes current_pid lvl = Some out"
    by (rule stack_Returned_unbounded)
  with printProcessTree_on_cycle [OF assms, of lvl] show ?thesis by simp
next
  case (StackExhausted out)
  then show ?thesis by blast
qed

lemma cycle_edges: "edges cycle_records = {(6, 5), (5, 6)}"
  by (simp add: edges_def cycle_records_def)

lemma five_on_cycle: "(5, 5) \<in> (edges cycle_records)\<^sup>+"
proof -
  have "(5, 6) \<in> edges cycle_records" "(6, 5) \<in> edges cycle_records"
    by (simp_all add: cycle_edges)
  then show ?thesis by (meson trancl.simps)
qed

lemma zero_on_self_cycle: "(0, 0) \<in> (edges self_parent_records)\<^sup>+"
  by (simp add: edges_def self_parent_records_def)

lemma twin_cycle_edges: "edges twin_cycle_records = {(0, 1), (1, 0)}"
  by (auto simp: edges_def twin_cycle_records_def twin_a_def twin_b_def back_child_def)

lemma twin_cycle_0: "(0, 0) \<in> (edges twin_cycle_records)\<^sup>+"
proof -
  have "(0, 1) \<in> edges twin_cycle_records" "(1, 0) \<in> edges twin_cycle_records"
    by (simp_all add: twin_cycle_edges)
  then show ?thesis by (meson trancl.simps)
qed

lemma twin_cycle_1: "(1, 1) \<in> (edges twin_cycle_records)\<^sup>+"
proof -
  have "(1, 0) \<in> edges twin_cycle_records" "(0, 1) \<in> edges twin_cycle_records"
    by (simp_all add: twin_cycle_edges)
  then show ?thesis by (meson trancl.simps)
qed

lemma twin_b_never_printed:
  "(twin_b, l) \<notin> set (printed_lines (printProcessTree_stack frames twin_cycle_records p lvl))"
proof (induction frames arbitrary: p lvl)
  case 0
  then show ?case by simp
next
  case (Suc frames)
  consider "p = 0" | "p = 1" | "p \<noteq> 0" "p \<noteq> 1" by blast
  then show ?case
  proof cases
    case 1
    have cs: "children_of twin_cycle_records 0 = [twin_a, twin_b]"
      by (simp add: children_of_def twin_cycle_records_def twin_a_def twin_b_def back_child_def)
    from stack_on_cycle [OF twin_cycle_1, of frames "lvl + 1"] obtain s where
      s: "printProcessTree_stack frames twin_cycle_records 1 (lvl + 1) = StackExhausted s"
      by blast
    have "pid twin_a = 1" by (simp add: twin_a_def)
    with s cs 1 have "printProcessTree_stack (Suc frames) twin_cycle_records p lvl =
        StackExhausted ((twin_a, lvl) # s)"
      by simp
    moreover have "(twin_b, l) \<notin> set s"
      using Suc.IH [of 1 "lvl + 1"] s by simp
    moreover have "twin_a \<noteq> twin_b" by (simp add: twin_a_def twin_b_def)
    ultimately show ?thesis by simp
  next
    case 2
    have cs: "children_of twin_cycle_records 1 = [back_child]"
      by (simp add: children_of_def twin_cycle_records_def twin_a_def twin_b_def back_child_def)
    from stack_on_cycle [OF twin_cycle_0, of frames "lvl + 1"] obtain s where
      s: "printProcessTree_stack frames twin_cycle_records 0 (lvl + 1) = StackExhausted s"
      by blast
    have "pid back_child = 0" by (simp add: back_child_def)
    with s cs 2 have "printProcessTree_stack (Suc frames) twin_cycle_records p lvl =
        StackExhausted ((back_child, lvl) # s)"
      by simp
    moreover have "(twin_b, l) \<notin> set s"
      using Suc.IH [of 0 "lvl + 1"] s by simp
    moreover have "back_child \<noteq> twin_b" by (simp add: back_child_def twin_b_def)
    ultimately show ?thesis by simp
  next
    case 3
    then have "children_of twin_cycle_records p = []"
      by (simp add: children_of_def twin_cycle_records_def twin_a_def twin_b_def back_child_def)
    then show ?thesis by simp
  qed
qed

text \<open>
  C1 (as the code behaves): the printer has no depth bound and no visited set. When the
  root id lies on a cycle of the child relation, as pid 5 does for the records
  \<open>{5, 6, a}\<close> and \<open>{6, 5, b}\<close>, neither the traversal nor the rendering ever
  returns: nothing detects the cycle, reports it or cuts the subtree short.
\<close>

theorem cycle_never_returns:
  assumes "(root_id, root_id) \<in> (edges all_processes)\<^sup>+"
  shows "render all_processes root_id = None \<and> printProcessTree all_processes root_id lvl = None"
  using assms by (simp add: render_def printProcessTree_on_cycle)

text \<open>The cycle of C1: pid 5 is on a cycle, and rendering from 5 does not return.\<close>

theorem cycle_never_returns_witness:
  "(5, 5) \<in> (edges cycle_records)\<^sup>+ \<and> render cycle_records 5 = None \<and>
   printProcessTree cycle_records 5 0 = None"
  using five_on_cycle cycle_never_returns [OF five_on_cycle, of 0] by simp

text \<open>
  C1 as stated fails: on the two records of the cycle, rendering from root id 5 has no
  result at all.
\<close>

theorem cycle_render_no_result: "render cycle_records 5 = None"
  using five_on_cycle by (simp add: render_def printProcessTree_on_cycle)

subsection \<open>Records without a cycle\<close>

lemma finite_edges: "finite (edges all_processes)"
  by (simp add: edges_def)

lemma acyclic_if_parent_smaller:
  assumes "\<And>r. r \<in> set all_processes \<Longrightarrow> ppid r < pid r"
  shows "acyclic (edges all_processes)"
proof -
  have sub: "edges all_processes \<subseteq> {(a, b). a < b}"
    using assms by (auto simp: edges_def)
  have "trans {(a :: int, b). a < b}" by (auto simp: trans_def)
  then have "{(a :: int, b). a < b}\<^sup>+ = {(a, b). a < b}" by (rule trancl_id)
  then have "acyclic {(a :: int, b). a < b}" by (simp add: acyclic_def)
  then show ?thesis using sub by (rule acyclic_subset)
qed

lemma tree_acyclic: "acyclic (edges tree_records)"
  by (rule acyclic_if_parent_smaller) (auto simp: tree_records_def)

lemma twin_acyclic: "acyclic (edges twin_records)"
  by (rule acyclic_if_parent_smaller)
    (auto simp: twin_records_def twin_a_def twin_b_def twin_child_def)

lemma unique_parent:
  assumes "distinct (map pid all_processes)"
    and "(a, x) \<in> edges all_processes" and "(b, x) \<in> edges all_processes"
  shows "a = b"
proof -
  from assms(2,3) obtain r s where
    r: "r \<in> set all_processes" "ppid r = a" "pid r = x" and
    s: "s \<in> set all_processes" "ppid s = b" "pid s = x"
    by (auto simp: edges_iff)
  from assms(1) have "inj_on pid (set all_processes)" by (simp add: distinct_map)
  with r s have "r = s" by (simp add: inj_on_def)
  with r s show ?thesis by simp
qed

lemma rtrancl_comparable:
  assumes up: "\<And>a b x. (a, x) \<in> R \<Longrightarrow> (b, x) \<in> R \<Longrightarrow> a = b"
    and "(a, z) \<in> R\<^sup>*" and "(b, z) \<in> R\<^sup>*"
  shows "(a, b) \<in> R\<^sup>* \<or> (b, a) \<in> R\<^sup>*"
  using assms(2,3)
proof (induction rule: rtrancl_induct)
  case base
  then show ?case by simp
next
  case (step y z)
  from step.prems show ?case
  proof (cases rule: rtranclE)
    case base
    with step.hyps show ?thesis by (simp add: rtrancl.rtrancl_into_rtrancl)
  next
    case (step y')
    with step.hyps(2) up have "y' = y" by blast
    with step(1) step.IH show ?thesis by simp
  qed
qed

lemma not_below_sibling:
  assumes ac: "acyclic (edges all_processes)"
    and c: "c \<in> set all_processes" and c': "c' \<in> set all_processes"
    and par: "ppid c = ppid c'"
  shows "c \<notin> descendants all_processes (pid c')"
proof
  assume "c \<in> descendants all_processes (pid c')"
  then have "(pid c', ppid c') \<in> (edges all_processes)\<^sup>*"
    using par by (simp add: descendants_def)
  moreover have "(ppid c', pid c') \<in> edges all_processes"
    using c' by (auto simp: edges_iff)
  ultimately have "(ppid c', ppid c') \<in> (edges all_processes)\<^sup>+"
    by (rule rtrancl_into_trancl2 [rotated])
  with ac show False by (simp add: acyclic_def)
qed

lemma siblings_disjoint:
  assumes ac: "acyclic (edges all_processes)"
    and di: "distinct (map pid all_processes)"
    and c: "c \<in> set all_processes" and c': "c' \<in> set all_processes"
    and par: "ppid c = ppid c'" and ne: "c \<noteq> c'"
  shows "descendants all_processes (pid c) \<inter> descendants all_processes (pid c') = {}"
proof -
  let ?E = "edges all_processes"
  have one_way: False
    if d: "d \<in> set all_processes" and d': "d' \<in> set all_processes"
      and dpar: "ppid d = ppid d'" and dne: "d \<noteq> d'"
      and path: "(pid d, pid d') \<in> ?E\<^sup>*" for d d'
  proof -
    from di have "inj_on pid (set all_processes)" by (simp add: distinct_map)
    with d d' dne have "pid d \<noteq> pid d'" by (auto simp: inj_on_def)
    with path have "(pid d, pid d') \<in> ?E\<^sup>+" by (simp add: rtrancl_eq_or_trancl)
    then obtain y where y: "(pid d, y) \<in> ?E\<^sup>*" "(y, pid d') \<in> ?E"
      by (meson tranclE trancl_into_rtrancl rtrancl.rtrancl_refl)
    have "(ppid d', pid d') \<in> ?E" using d' by (auto simp: edges_iff)
    with y(2) have "y = ppid d'" by (rule unique_parent [OF di])
    with y(1) dpar have "(pid d, ppid d) \<in> ?E\<^sup>*" by simp
    then have "d \<in> descendants all_processes (pid d)" using d by (simp add: descendants_def)
    with not_below_sibling [OF ac d d] show False by simp
  qed
  show ?thesis
  proof (rule ccontr)
    assume "descendants all_processes (pid c) \<inter> descendants all_processes (pid c') \<noteq> {}"
    then obtain r :: ProcessInfo
      where r: "(pid c, ppid r) \<in> ?E\<^sup>*" "(pid c', ppid r) \<in> ?E\<^sup>*"
      by (auto simp: descendants_def)
    have "(pid c, pid c') \<in> ?E\<^sup>* \<or> (pid c', pid c) \<in> ?E\<^sup>*"
      using r by (rule rtrancl_comparable [rotated 1]) (rule unique_parent [OF di])
    then show False
      using one_way [OF c c' par ne] one_way [OF c' c par [symmetric] ne [symmetric]] by blast
  qed
qed

lemma descendants_unfold:
  "descendants all_processes p =
     (\<Union>c \<in> {r \<in> set all_processes. ppid r = p}. insert c (descendants all_processes (pid c)))"
proof (intro equalityI subsetI)
  fix r
  assume "r \<in> descendants all_processes p"
  then have r: "r \<in> set all_processes" "(p, ppid r) \<in> (edges all_processes)\<^sup>*"
    by (simp_all add: descendants_def)
  from r(2) show "r \<in> (\<Union>c \<in> {r \<in> set all_processes. ppid r = p}.
                        insert c (descendants all_processes (pid c)))"
  proof (cases rule: converse_rtranclE)
    case base
    with r(1) show ?thesis by auto
  next
    case (step y)
    from step(1) obtain c where "c \<in> set all_processes" "ppid c = p" "pid c = y"
      by (auto simp: edges_iff)
    with step(2) r(1) show ?thesis by (auto simp: descendants_def)
  qed
next
  fix r
  assume "r \<in> (\<Union>c \<in> {r \<in> set all_processes. ppid r = p}.
                  insert c (descendants all_processes (pid c)))"
  then obtain c where c: "c \<in> set all_processes" "ppid c = p"
    and r: "r = c \<or> r \<in> descendants all_processes (pid c)" by auto
  have "(p, pid c) \<in> edges all_processes" using c by (auto simp: edges_iff)
  with r c show "r \<in> descendants all_processes p"
    by (auto simp: descendants_def intro: converse_rtrancl_into_rtrancl)
qed

lemma descendants_iff_pid_reachable:
  assumes "distinct (map pid all_processes)" and "r \<in> set all_processes"
  shows "r \<in> descendants all_processes p \<longleftrightarrow> (p, pid r) \<in> (edges all_processes)\<^sup>+"
proof
  assume "r \<in> descendants all_processes p"
  then have "(p, ppid r) \<in> (edges all_processes)\<^sup>*" by (simp add: descendants_def)
  moreover have "(ppid r, pid r) \<in> edges all_processes"
    using assms(2) by (auto simp: edges_iff)
  ultimately show "(p, pid r) \<in> (edges all_processes)\<^sup>+" by (rule rtrancl_into_trancl1)
next
  assume "(p, pid r) \<in> (edges all_processes)\<^sup>+"
  then obtain y where y: "(p, y) \<in> (edges all_processes)\<^sup>*" "(y, pid r) \<in> edges all_processes"
    by (meson tranclE trancl_into_rtrancl rtrancl.rtrancl_refl)
  have "(ppid r, pid r) \<in> edges all_processes"
    using assms(2) by (auto simp: edges_iff)
  with y(2) have "y = ppid r" by (rule unique_parent [OF assms(1)])
  with y(1) assms(2) show "r \<in> descendants all_processes p" by (simp add: descendants_def)
qed

lemma distinct_concat_blocks:
  assumes "distinct cs"
    and "\<And>c. c \<in> set cs \<Longrightarrow> distinct (g c)"
    and "\<And>c c'. c \<in> set cs \<Longrightarrow> c' \<in> set cs \<Longrightarrow> c \<noteq> c' \<Longrightarrow> set (g c) \<inter> set (g c') = {}"
  shows "distinct (concat (map g cs))"
  using assms
proof (induction cs)
  case Nil
  then show ?case by simp
next
  case (Cons c cs)
  have "distinct (concat (map g cs))"
    using Cons.prems by (intro Cons.IH) auto
  moreover have "distinct (g c)" using Cons.prems(2) by simp
  moreover have "set (g c) \<inter> set (g c') = {}" if "c' \<in> set cs" for c'
    using that Cons.prems(1) by (intro Cons.prems(3)) auto
  ultimately show ?case by auto
qed

lemma distinct_children_of:
  "distinct all_processes \<Longrightarrow> distinct (children_of all_processes p)"
  by (simp add: children_of_def)

lemma printProcessTree_prints_descendants_once:
  assumes ac: "acyclic (edges all_processes)"
    and di: "distinct (map pid all_processes)"
  shows "printProcessTree all_processes current_pid lvl = Some out \<Longrightarrow>
           distinct (map fst out) \<and> set (map fst out) = descendants all_processes current_pid"
proof -
  have wf: "wf ((edges all_processes)\<inverse>)"
    using finite_edges ac by (rule finite_acyclic_wf_converse)
  have "\<forall>lvl out. printProcessTree all_processes current_pid lvl = Some out \<longrightarrow>
          distinct (map fst out) \<and> set (map fst out) = descendants all_processes current_pid"
    using wf
  proof (induct current_pid rule: wf_induct_rule)
    case (less p)
    show ?case
    proof (intro allI impI)
      fix lvl out
      let ?cs = "children_of all_processes p"
      let ?sub = "\<lambda>c. the (printProcessTree all_processes (pid c) (lvl + 1))"
      let ?g = "\<lambda>c. c # map fst (?sub c)"
      assume "printProcessTree all_processes p lvl = Some out"
      then have "for_children (\<lambda>c. printProcessTree all_processes (pid c) (lvl + 1)) lvl ?cs = Some out"
        by (simp add: printProcessTree_rec [symmetric])
      from for_children_Some [OF this] have
        subs: "\<forall>c \<in> set ?cs. \<exists>s. printProcessTree all_processes (pid c) (lvl + 1) = Some s" and
        out: "out = concat (map (\<lambda>c. (c, lvl) # ?sub c) ?cs)"
        by simp_all
      have fst_out: "map fst out = concat (map ?g ?cs)"
        unfolding out by (simp add: map_concat comp_def)
      have IH: "distinct (map fst (?sub c)) \<and> set (map fst (?sub c)) = descendants all_processes (pid c)"
        if "c \<in> set ?cs" for c
      proof -
        from that have "(p, pid c) \<in> edges all_processes"
          by (auto simp: set_children_of edges_iff)
        moreover from subs that obtain s where "printProcessTree all_processes (pid c) (lvl + 1) = Some s"
          by blast
        ultimately show ?thesis using less by simp
      qed
      have in_all: "c \<in> set all_processes" and par: "ppid c = p" if "c \<in> set ?cs" for c
        using that by (simp_all add: set_children_of)
      have set_g: "set (?g c) = insert c (descendants all_processes (pid c))" if "c \<in> set ?cs" for c
        using IH [OF that] by simp
      have "distinct all_processes" using di by (simp add: distinct_map)
      then have "distinct ?cs" by (rule distinct_children_of)
      moreover have "distinct (?g c)" if "c \<in> set ?cs" for c
        using IH [OF that] not_below_sibling [OF ac in_all [OF that] in_all [OF that]] by simp
      moreover have "set (?g c) \<inter> set (?g c') = {}"
        if "c \<in> set ?cs" "c' \<in> set ?cs" "c \<noteq> c'" for c c'
      proof -
        have same: "ppid c = ppid c'" using par that by simp
        have "c \<notin> descendants all_processes (pid c')"
          using ac in_all [OF that(1)] in_all [OF that(2)] same by (rule not_below_sibling)
        moreover have "c' \<notin> descendants all_processes (pid c)"
          using ac in_all [OF that(2)] in_all [OF that(1)] same [symmetric] by (rule not_below_sibling)
        moreover have "descendants all_processes (pid c) \<inter> descendants all_processes (pid c') = {}"
          using ac di in_all [OF that(1)] in_all [OF that(2)] same that(3) by (rule siblings_disjoint)
        ultimately show ?thesis
          unfolding set_g [OF that(1)] set_g [OF that(2)] using that(3) by auto
      qed
      ultimately have "distinct (concat (map ?g ?cs))" by (rule distinct_concat_blocks)
      moreover have "set (concat (map ?g ?cs)) = descendants all_processes p"
      proof -
        have "set (concat (map ?g ?cs)) = (\<Union>c \<in> set ?cs. set (?g c))" by simp
        also have "\<dots> = (\<Union>c \<in> set ?cs. insert c (descendants all_processes (pid c)))"
          using set_g by (intro SUP_cong refl)
        also have "\<dots> = descendants all_processes p"
          by (subst (2) descendants_unfold) (simp add: set_children_of)
        finally show ?thesis .
      qed
      ultimately show "distinct (map fst out) \<and> set (map fst out) = descendants all_processes p"
        unfolding fst_out by simp
    qed
  qed
  then show "printProcessTree all_processes current_pid lvl = Some out \<Longrightarrow>
           distinct (map fst out) \<and> set (map fst out) = descendants all_processes current_pid"
    by simp
qed

lemma count_list_distinct:
  "distinct xs \<Longrightarrow> count_list xs x = (if x \<in> set xs then 1 else 0)"
  by (induction xs) auto

lemma tree_distinct: "distinct (map pid tree_records)"
  by (simp add: tree_records_def)

lemma twin_child_below_root: "twin_child \<in> descendants twin_records 0"
proof -
  have "(0, 1) \<in> edges twin_records"
    by (simp add: edges_def twin_records_def twin_a_def)
  then have "(0, ppid twin_child) \<in> (edges twin_records)\<^sup>*"
    by (simp add: twin_child_def)
  then show ?thesis by (simp add: descendants_def twin_records_def)
qed

lemma pids_below_subset: "pids_below all_processes p \<subseteq> pid ` set all_processes"
proof
  fix c
  assume "c \<in> pids_below all_processes p"
  then have "(p, c) \<in> (edges all_processes)\<^sup>+" by (simp add: pids_below_def)
  then obtain y where "(y, c) \<in> edges all_processes" by (meson tranclE)
  then show "c \<in> pid ` set all_processes" by (auto simp: edges_iff)
qed

lemma finite_pids_below: "finite (pids_below all_processes p)"
  using pids_below_subset by (rule finite_subset) simp

lemma card_pids_below: "card (pids_below all_processes p) \<le> length all_processes"
proof -
  have "card (pids_below all_processes p) \<le> card (pid ` set all_processes)"
    using pids_below_subset by (intro card_mono) simp_all
  also have "\<dots> \<le> card (set all_processes)" by (rule card_image_le) simp
  also have "\<dots> \<le> length all_processes" by (rule card_length)
  finally show ?thesis .
qed

lemma pids_below_child:
  assumes ac: "acyclic (edges all_processes)"
    and c: "c \<in> set all_processes" "ppid c = p"
  shows "pids_below all_processes (pid c) \<subset> pids_below all_processes p"
proof -
  have e: "(p, pid c) \<in> edges all_processes" using c by (auto simp: edges_iff)
  have "pids_below all_processes (pid c) \<subseteq> pids_below all_processes p"
    using e by (auto simp: pids_below_def intro: trancl_into_trancl2)
  moreover have "pid c \<in> pids_below all_processes p"
    using e by (auto simp: pids_below_def)
  moreover have "pid c \<notin> pids_below all_processes (pid c)"
    using ac by (simp add: pids_below_def acyclic_def)
  ultimately show ?thesis by blast
qed

lemma stack_returns:
  assumes ac: "acyclic (edges all_processes)"
  shows "card (pids_below all_processes current_pid) < frames \<Longrightarrow>
           \<exists>out. printProcessTree_stack frames all_processes current_pid lvl = Returned out"
proof (induction frames arbitrary: current_pid lvl)
  case 0
  then show ?case by simp
next
  case (Suc frames)
  have "\<exists>s. printProcessTree_stack frames all_processes (pid c) (lvl + 1) = Returned s"
    if "c \<in> set (children_of all_processes current_pid)" for c
  proof -
    from that have c: "c \<in> set all_processes" "ppid c = current_pid"
      by (simp_all add: set_children_of)
    have "card (pids_below all_processes (pid c)) < card (pids_below all_processes current_pid)"
      using finite_pids_below pids_below_child [OF ac c] by (rule psubset_card_mono)
    with Suc.prems have "card (pids_below all_processes (pid c)) < frames" by simp
    then show ?thesis by (rule Suc.IH)
  qed
  then show ?case by (simp add: run_children_returns)
qed

lemma stack_returns_length:
  assumes "acyclic (edges all_processes)" and "length all_processes < frames"
  shows "\<exists>out. printProcessTree_stack frames all_processes current_pid lvl = Returned out"
proof -
  have "card (pids_below all_processes current_pid) < frames"
    using card_pids_below [of all_processes current_pid] assms(2) by simp
  with assms(1) show ?thesis by (rule stack_returns)
qed

lemma stack_prints_descendants_once:
  assumes "acyclic (edges all_processes)" and "distinct (map pid all_processes)"
    and "printProcessTree_stack frames all_processes current_pid lvl = Returned out"
  shows "count_list (map fst out) r = (if r \<in> descendants all_processes current_pid then 1 else 0)"
proof -
  from assms(3) have "printProcessTree all_processes current_pid lvl = Some out"
    by (rule stack_Returned_unbounded)
  from printProcessTree_prints_descendants_once [OF assms(1,2) this] show ?thesis
    by (simp add: count_list_distinct)
qed

text \<open>
  C2 (amended): when the child relation of the records has no cycle and the call stack
  holds more nested calls than there are records (or than there are pids below the
  root id), the traversal from the root id returns; when moreover no two records share
  a pid, every record is printed exactly once if it lies below the root id and not at
  all otherwise.
\<close>

theorem acyclic_prints_each_record_once:
  assumes "acyclic (edges all_processes)"
    and "length all_processes < frames \<or> card (pids_below all_processes root_id) < frames"
  shows "\<exists>out. printProcessTree_stack frames all_processes root_id 0 = Returned out \<and>
           (distinct (map pid all_processes) \<longrightarrow>
              (\<forall>r. count_list (map fst out) r =
                     (if r \<in> descendants all_processes root_id then 1 else 0)))"
proof -
  from assms(2) have "card (pids_below all_processes root_id) < frames"
    using card_pids_below [of all_processes root_id] by auto
  with assms(1) obtain out where
    out: "printProcessTree_stack frames all_processes root_id 0 = Returned out"
    using stack_returns by blast
  have "\<forall>r. count_list (map fst out) r =
                  (if r \<in> descendants all_processes root_id then 1 else 0)"
    if "distinct (map pid all_processes)"
    using stack_prints_descendants_once [OF assms(1) that out] by simp
  with out show ?thesis by blast
qed

text \<open>
  C2 on \<open>tree_records\<close>: four records without a cycle, pairwise distinct pids, and a
  stack of five frames.
\<close>

theorem acyclic_prints_each_record_once_witness:
  "acyclic (edges tree_records) \<and> length tree_records < 5 \<and> distinct (map pid tree_records) \<and>
   (\<exists>out. printProcessTree_stack 5 tree_records 0 0 = Returned out \<and>
           (\<forall>r. count_list (map fst out) r = (if r \<in> descendants tree_records 0 then 1 else 0)))"
proof -
  have len: "length tree_records < 5" by (simp add: tree_records_def)
  then have "length tree_records < 5 \<or> card (pids_below tree_records 0) < 5" by simp
  from acyclic_prints_each_record_once [OF tree_acyclic this] tree_acyclic len tree_distinct
  show ?thesis by blast
qed

text \<open>
  C2 as stated fails in two ways. \<open>twin_records\<close> has no cycle, its record with pid 2
  lies below root id 0, and the traversal, which returns, prints that record twice.
  \<open>tree_records\<close> has no cycle either, and on a stack of two frames the traversal does
  not return: the stack runs out below shell.
\<close>

theorem shared_pid_or_shallow_stack:
  "acyclic (edges twin_records) \<and> twin_child \<in> descendants twin_records 0 \<and>
   printProcessTree_stack 3 twin_records 0 0 =
     Returned [(twin_a, 0), (twin_child, 1), (twin_b, 0), (twin_child, 1)] \<and>
   count_list [twin_a, twin_child, twin_b, twin_child] twin_child = 2 \<and>
   acyclic (edges tree_records) \<and>
   printProcessTree_stack 2 tree_records 0 0 =
     StackExhausted [(\<lparr>pid = 1, ppid = 0, name = ''init'', level = 0\<rparr>, 0),
                     (\<lparr>pid = 2, ppid = 1, name = ''shell'', level = 0\<rparr>, 1)]"
  using twin_acyclic twin_child_below_root twin_stack_3 tree_acyclic tree_stack_2
  by (simp add: twin_a_def twin_b_def twin_child_def)

subsection \<open>The order of the lines of one node\<close>

lemma printChildren_levels:
  assumes "printChildren all_processes cs lvl = Some out"
  shows "\<forall>e \<in> set out. lvl \<le> snd e"
proof (rule printChildren.raw_induct
    [where P = "\<lambda>al cs lvl out. \<forall>e \<in> set out. lvl \<le> snd e", OF _ assms])
  fix f :: "ProcessInfo list \<Rightarrow> ProcessInfo list \<Rightarrow> int \<Rightarrow> printed list option"
  fix al cs lvl out
  assume IH: "\<And>al cs lvl out. f al cs lvl = Some out \<Longrightarrow> \<forall>e \<in> set out. lvl \<le> snd e"
  assume step: "(case cs of
        [] \<Rightarrow> Some []
      | child # rest \<Rightarrow>
          do {
            sub \<leftarrow> f al (children_of al (pid child)) (lvl + 1);
            more \<leftarrow> f al rest lvl;
            Some ((child, lvl) # sub @ more)
          }) = Some out"
  show "\<forall>e \<in> set out. lvl \<le> snd e"
  proof (cases cs)
    case Nil
    with step show ?thesis by simp
  next
    case (Cons child rest)
    with step obtain sub more where
      sub: "f al (children_of al (pid child)) (lvl + 1) = Some sub" and
      more: "f al rest lvl = Some more" and
      out: "out = (child, lvl) # sub @ more"
      by (auto split: bind_splits)
    from IH [OF sub] have "\<forall>e \<in> set sub. lvl \<le> snd e" by auto
    with IH [OF more] out show ?thesis by auto
  qed
qed

lemma lines_at_level:
  assumes "\<And>c e. c \<in> set cs \<Longrightarrow> e \<in> set (g c) \<Longrightarrow> snd e \<noteq> lvl"
  shows "map fst (filter (\<lambda>e. snd e = lvl) (concat (map (\<lambda>c. (c, lvl) # g c) cs))) = cs"
  using assms
proof (induction cs)
  case Nil
  then show ?case by simp
next
  case (Cons c cs)
  have "filter (\<lambda>e. snd e = lvl) (g c) = []"
    using Cons.prems by (auto simp: filter_empty_conv)
  moreover have "map fst (filter (\<lambda>e. snd e = lvl) (concat (map (\<lambda>c. (c, lvl) # g c) cs))) = cs"
    using Cons.prems by (intro Cons.IH) auto
  ultimately show ?case by simp
qed

lemma direct_children_lines:
  assumes "printProcessTree all_processes current_pid lvl = Some out"
  shows "map fst (filter (\<lambda>e. snd e = lvl) out) = children_of all_processes current_pid"
proof -
  let ?sub = "\<lambda>c. the (printProcessTree all_processes (pid c) (lvl + 1))"
  from printProcessTree_blocks [OF assms] have
    subs: "\<forall>c \<in> set (children_of all_processes current_pid).
             \<exists>s. printProcessTree all_processes (pid c) (lvl + 1) = Some s" and
    out: "out = concat (map (\<lambda>c. (c, lvl) # ?sub c) (children_of all_processes current_pid))"
    by simp_all
  have "snd e \<noteq> lvl"
    if "c \<in> set (children_of all_processes current_pid)" "e \<in> set (?sub c)" for c e
  proof -
    from subs that(1) obtain s where s: "printProcessTree all_processes (pid c) (lvl + 1) = Some s"
      by blast
    then have "\<forall>e \<in> set s. lvl + 1 \<le> snd e"
      unfolding printProcessTree_def by (rule printChildren_levels)
    with s that(2) show ?thesis by auto
  qed
  then show ?thesis unfolding out by (rule lines_at_level)
qed






subsection \<open>Records that share a pid\<close>

lemma lines_for_pid:
  assumes "printProcessTree all_processes current_pid lvl = Some out"
  shows "length (filter (\<lambda>e. snd e = lvl \<and> pid (fst e) = p) out) =
         length (filter (\<lambda>r. ppid r = current_pid \<and> pid r = p) all_processes)"
proof -
  have "length (filter (\<lambda>e. snd e = lvl \<and> pid (fst e) = p) out) =
        length (filter (\<lambda>r. pid r = p) (map fst (filter (\<lambda>e. snd e = lvl) out)))"
    by (simp add: filter_map comp_def conj_commute)
  also have "\<dots> = length (filter (\<lambda>r. pid r = p) (children_of all_processes current_pid))"
    by (simp add: direct_children_lines [OF assms])
  also have "\<dots> = length (filter (\<lambda>r. ppid r = current_pid \<and> pid r = p) all_processes)"
    by (simp add: children_of_def filter_sort conj_commute)
  finally show ?thesis .
qed

lemma two_positions_split:
  assumes "i < j" and "j < length xs"
  shows "\<exists>as bs cs. xs = as @ xs ! i # bs @ xs ! j # cs"
proof -
  from assms have i: "i < length xs" by simp
  have xs: "xs = take i xs @ xs ! i # drop (Suc i) xs"
    using i by (rule id_take_nth_drop)
  let ?ys = "drop (Suc i) xs"
  have k: "j - Suc i < length ?ys" using assms by simp
  have nth: "?ys ! (j - Suc i) = xs ! j" using assms by simp
  have "?ys = take (j - Suc i) ?ys @ ?ys ! (j - Suc i) # drop (Suc (j - Suc i)) ?ys"
    using k by (rule id_take_nth_drop)
  with nth have "?ys = take (j - Suc i) ?ys @ xs ! j # drop (Suc (j - Suc i)) ?ys" by simp
  with xs have "xs = take i xs @ xs ! i # take (j - Suc i) ?ys @ xs ! j # drop (Suc (j - Suc i)) ?ys"
    by simp
  then show ?thesis by blast
qed

lemma two_entries_in_filter:
  assumes "i < length xs" and "j < length xs" and "i \<noteq> j" and "P (xs ! i)" and "P (xs ! j)"
  shows "{#xs ! i, xs ! j#} \<subseteq># mset (filter P xs)"
proof -
  have ordered: "{#xs ! a, xs ! b#} \<subseteq># mset (filter P xs)"
    if "a < b" "b < length xs" "P (xs ! a)" "P (xs ! b)" for a b
  proof -
    from two_positions_split [OF that(1,2)] obtain as bs cs where
      xs: "xs = as @ xs ! a # bs @ xs ! b # cs" by blast
    have "filter P xs = filter P (as @ xs ! a # bs @ xs ! b # cs)"
      using xs by simp
    also have "\<dots> = filter P as @ xs ! a # filter P bs @ xs ! b # filter P cs"
      using that(3,4) by simp
    finally have "mset (filter P xs) =
        {#xs ! a, xs ! b#} + (mset (filter P as) + mset (filter P bs) + mset (filter P cs))"
      by (simp add: ac_simps)
    then show ?thesis by simp
  qed
  from assms(3) consider "i < j" | "j < i" by linarith
  then show ?thesis
  proof cases
    case 1
    then show ?thesis using ordered assms by blast
  next
    case 2
    then have "{#xs ! j, xs ! i#} \<subseteq># mset (filter P xs)" using ordered assms by blast
    then show ?thesis by (simp add: add_mset_commute)
  qed
qed

lemma two_entries_split:
  assumes "{#x, y#} \<subseteq># mset zs"
  shows "(\<exists>us vs ws. zs = us @ x # vs @ y # ws) \<or> (\<exists>us vs ws. zs = us @ y # vs @ x # ws)"
proof -
  from assms have "x \<in># mset zs" by (meson mset_subset_eqD union_single_eq_member)
  then obtain us ws where zs: "zs = us @ x # ws" by (metis set_mset_mset split_list)
  with assms have "{#y#} \<subseteq># mset (us @ ws)" by simp
  then have "y \<in> set us \<or> y \<in> set ws" by auto
  then show ?thesis
  proof
    assume "y \<in> set us"
    then obtain p q where "us = p @ y # q" by (meson split_list)
    with zs have "zs = p @ y # q @ x # ws" by simp
    then show ?thesis by blast
  next
    assume "y \<in> set ws"
    then obtain p q where "ws = p @ y # q" by (meson split_list)
    with zs have "zs = us @ x # p @ y # q" by simp
    then show ?thesis by blast
  qed
qed

lemma duplicates_in_children_of:
  assumes "i < length all_processes" and "j < length all_processes" and "i \<noteq> j"
    and "ppid (all_processes ! i) = current_pid" and "ppid (all_processes ! j) = current_pid"
  shows "(\<exists>us vs ws. children_of all_processes current_pid =
            us @ all_processes ! i # vs @ all_processes ! j # ws) \<or>
         (\<exists>us vs ws. children_of all_processes current_pid =
            us @ all_processes ! j # vs @ all_processes ! i # ws)"
proof -
  have "{#all_processes ! i, all_processes ! j#} \<subseteq>#
          mset (filter (\<lambda>proc. ppid proc = current_pid) all_processes)"
    using assms by (intro two_entries_in_filter) simp_all
  then have "{#all_processes ! i, all_processes ! j#} \<subseteq>#
          mset (children_of all_processes current_pid)"
    by (simp add: children_of_def)
  then show ?thesis by (rule two_entries_split)
qed

text \<open>
  C10 (amended): two entries of the vector (equal or not) with the same pid under the
  current node are both in the list the loop of that node runs over. Whenever the call
  for the node returns, each of the two has a line of its own at the node's depth,
  followed by the whole subtree of that pid, which so stands twice in the output, and
  the node has printed as many lines with that pid as there are such entries.
\<close>

theorem duplicate_entries_subtree_repeated:
  assumes "i < length all_processes" and "j < length all_processes" and "i \<noteq> j"
    and "pid (all_processes ! i) = pid (all_processes ! j)"
    and "ppid (all_processes ! i) = current_pid" and "ppid (all_processes ! j) = current_pid"
  shows "((\<exists>us vs ws. children_of all_processes current_pid =
              us @ all_processes ! i # vs @ all_processes ! j # ws) \<or>
          (\<exists>us vs ws. children_of all_processes current_pid =
              us @ all_processes ! j # vs @ all_processes ! i # ws)) \<and>
         (\<forall>frames out.
            printProcessTree_stack frames all_processes current_pid lvl = Returned out \<longrightarrow>
            (\<exists>sub before between after.
               printProcessTree_stack (frames - 1) all_processes (pid (all_processes ! i)) (lvl + 1) =
                 Returned sub \<and>
               (out = before @ (all_processes ! i, lvl) # sub @ between @
                        (all_processes ! j, lvl) # sub @ after \<or>
                out = before @ (all_processes ! j, lvl) # sub @ between @
                        (all_processes ! i, lvl) # sub @ after) \<and>
               length (filter (\<lambda>e. snd e = lvl \<and> pid (fst e) = pid (all_processes ! i)) out) =
               length (filter (\<lambda>r. ppid r = current_pid \<and> pid r = pid (all_processes ! i))
                         all_processes)))"
proof (intro conjI allI impI)
  let ?cs = "children_of all_processes current_pid"
  let ?d1 = "all_processes ! i" and ?d2 = "all_processes ! j"
  show split: "(\<exists>us vs ws. ?cs = us @ ?d1 # vs @ ?d2 # ws) \<or> (\<exists>us vs ws. ?cs = us @ ?d2 # vs @ ?d1 # ws)"
    using assms(1,2,3,5,6) by (rule duplicates_in_children_of)
  fix frames out
  assume ret: "printProcessTree_stack frames all_processes current_pid lvl = Returned out"
  let ?g = "\<lambda>c. (c, lvl) #
              printed_lines (printProcessTree_stack (frames - 1) all_processes (pid c) (lvl + 1))"
  from stack_Returned_blocks [OF ret] have
    subs: "\<forall>c \<in> set ?cs.
             \<exists>s. printProcessTree_stack (frames - 1) all_processes (pid c) (lvl + 1) = Returned s" and
    out: "out = concat (map ?g ?cs)"
    by simp_all
  have "?d1 \<in> set ?cs" using assms(1,5) by (simp add: set_children_of)
  with subs obtain sub where
    sub: "printProcessTree_stack (frames - 1) all_processes (pid ?d1) (lvl + 1) = Returned sub"
    by blast
  have g1: "?g ?d1 = (?d1, lvl) # sub" using sub by simp
  have g2: "?g ?d2 = (?d2, lvl) # sub" using sub assms(4) by simp
  from split
  have "(\<exists>before between after. out = before @ (?d1, lvl) # sub @ between @ (?d2, lvl) # sub @ after) \<or>
        (\<exists>before between after. out = before @ (?d2, lvl) # sub @ between @ (?d1, lvl) # sub @ after)"
  proof
    assume "\<exists>us vs ws. ?cs = us @ ?d1 # vs @ ?d2 # ws"
    then obtain us vs ws where "?cs = us @ ?d1 # vs @ ?d2 # ws" by blast
    then have "out = concat (map ?g us) @ ?g ?d1 @ concat (map ?g vs) @ ?g ?d2 @ concat (map ?g ws)"
      unfolding out by simp
    then have "out = concat (map ?g us) @ (?d1, lvl) # sub @ concat (map ?g vs) @ (?d2, lvl) # sub @
                     concat (map ?g ws)"
      unfolding g1 g2 by simp
    then show ?thesis by blast
  next
    assume "\<exists>us vs ws. ?cs = us @ ?d2 # vs @ ?d1 # ws"
    then obtain us vs ws where "?cs = us @ ?d2 # vs @ ?d1 # ws" by blast
    then have "out = concat (map ?g us) @ ?g ?d2 @ concat (map ?g vs) @ ?g ?d1 @ concat (map ?g ws)"
      unfolding out by simp
    then have "out = concat (map ?g us) @ (?d2, lvl) # sub @ concat (map ?g vs) @ (?d1, lvl) # sub @
                     concat (map ?g ws)"
      unfolding g1 g2 by simp
    then show ?thesis by blast
  qed
  moreover have "length (filter (\<lambda>e. snd e = lvl \<and> pid (fst e) = pid ?d1) out) =
               length (filter (\<lambda>r. ppid r = current_pid \<and> pid r = pid ?d1) all_processes)"
    using stack_Returned_unbounded [OF ret] by (rule lines_for_pid)
  ultimately
  show "\<exists>sub before between after.
          printProcessTree_stack (frames - 1) all_processes (pid ?d1) (lvl + 1) = Returned sub \<and>
          (out = before @ (?d1, lvl) # sub @ between @ (?d2, lvl) # sub @ after \<or>
           out = before @ (?d2, lvl) # sub @ between @ (?d1, lvl) # sub @ after) \<and>
          length (filter (\<lambda>e. snd e = lvl \<and> pid (fst e) = pid ?d1) out) =
          length (filter (\<lambda>r. ppid r = current_pid \<and> pid r = pid ?d1) all_processes)"
    using sub by blast
qed

text \<open>
  C10 on \<open>twin_records\<close> with three frames: both records with pid 1 are printed, each
  followed by the record with pid 2.
\<close>

theorem duplicate_entries_subtree_repeated_witness:
  "(0 :: nat) < length twin_records \<and> (1 :: nat) < length twin_records \<and> (0 :: nat) \<noteq> 1 \<and>
   pid (twin_records ! 0) = pid (twin_records ! 1) \<and>
   ppid (twin_records ! 0) = 0 \<and> ppid (twin_records ! 1) = 0 \<and>
   printProcessTree_stack 3 twin_records 0 0 =
     Returned [(twin_a, 0), (twin_child, 1), (twin_b, 0), (twin_child, 1)] \<and>
   ((\<exists>us vs ws. children_of twin_records 0 = us @ twin_records ! 0 # vs @ twin_records ! 1 # ws) \<or>
    (\<exists>us vs ws. children_of twin_records 0 = us @ twin_records ! 1 # vs @ twin_records ! 0 # ws)) \<and>
   (\<exists>sub before between after.
      printProcessTree_stack (3 - 1) twin_records (pid (twin_records ! 0)) (0 + 1) = Returned sub \<and>
      ([(twin_a, 0), (twin_child, 1), (twin_b, 0), (twin_child, 1)] =
         before @ (twin_records ! 0, 0) # sub @ between @ (twin_records ! 1, 0) # sub @ after \<or>
       [(twin_a, 0), (twin_child, 1), (twin_b, 0), (twin_child, 1)] =
         before @ (twin_records ! 1, 0) # sub @ between @ (twin_records ! 0, 0) # sub @ after) \<and>
      length (filter (\<lambda>e. snd e = 0 \<and> pid (fst e) = pid (twin_records ! 0))
                [(twin_a, 0 :: int), (twin_child, 1), (twin_b, 0), (twin_child, 1)]) =
      length (filter (\<lambda>r. ppid r = 0 \<and> pid r = pid (twin_records ! 0)) twin_records))"
proof -
  have h: "(0 :: nat) < length twin_records" "(1 :: nat) < length twin_records" "(0 :: nat) \<noteq> 1"
    "pid (twin_records ! 0) = pid (twin_records ! 1)"
    "ppid (twin_records ! 0) = 0" "ppid (twin_records ! 1) = 0"
    by (simp_all add: twin_records_def twin_a_def twin_b_def)
  note concl = duplicate_entries_subtree_repeated [OF h, of 0]
  from concl have loop:
    "(\<exists>us vs ws. children_of twin_records 0 = us @ twin_records ! 0 # vs @ twin_records ! 1 # ws) \<or>
     (\<exists>us vs ws. children_of twin_records 0 = us @ twin_records ! 1 # vs @ twin_records ! 0 # ws)"
    by (rule conjunct1)
  from concl twin_stack_3 have printed:
    "\<exists>sub before between after.
      printProcessTree_stack (3 - 1) twin_records (pid (twin_records ! 0)) (0 + 1) = Returned sub \<and>
      ([(twin_a, 0), (twin_child, 1), (twin_b, 0), (twin_child, 1)] =
         before @ (twin_records ! 0, 0) # sub @ between @ (twin_records ! 1, 0) # sub @ after \<or>
       [(twin_a, 0), (twin_child, 1), (twin_b, 0), (twin_child, 1)] =
         before @ (twin_records ! 1, 0) # sub @ between @ (twin_records ! 0, 0) # sub @ after) \<and>
      length (filter (\<lambda>e. snd e = 0 \<and> pid (fst e) = pid (twin_records ! 0))
                [(twin_a, 0 :: int), (twin_child, 1), (twin_b, 0), (twin_child, 1)]) =
      length (filter (\<lambda>r. ppid r = 0 \<and> pid r = pid (twin_records ! 0)) twin_records)"
    by blast
  show ?thesis by (intro conjI h twin_stack_3 loop printed)
qed

text \<open>
  C10 as stated fails when the call for the node does not return: in
  \<open>twin_cycle_records\<close> the two records with pid 1 lie under root id 0, but the subtree
  of pid 1 leads back to pid 0, so the loop never gets past the first of them. With
  four frames the lines are a, c, a, c; the line of b is printed on no stack
  (lemma \<open>twin_b_never_printed\<close>).
\<close>

theorem later_duplicate_never_printed:
  "(0 :: nat) < length twin_cycle_records \<and> (1 :: nat) < length twin_cycle_records \<and>
   twin_cycle_records ! 0 = twin_a \<and> twin_cycle_records ! 1 = twin_b \<and> twin_a \<noteq> twin_b \<and>
   pid twin_a = pid twin_b \<and> ppid twin_a = 0 \<and> ppid twin_b = 0 \<and>
   printProcessTree_stack 4 twin_cycle_records 0 0 =
     StackExhausted [(twin_a, 0), (back_child, 1), (twin_a, 2), (back_child, 3)] \<and>
   printProcessTree twin_cycle_records 0 0 = None"
proof -
  have "printProcessTree twin_cycle_records 0 0 = None"
    using twin_cycle_0 by (rule printProcessTree_on_cycle)
  with twin_cycle_stack_4 show ?thesis
    by (simp add: twin_cycle_records_def) (simp add: twin_a_def twin_b_def)
qed

subsection \<open>How the process ends\<close>

text \<open>
  C5 (amended): with no records \<open>main\<close> exits with status 1, whether \<open>/proc\<close>
  could not be opened or the scan found nothing: \<open>getAllProcessInfo\<close> returns the same
  empty vector in both cases, and the two runs differ only in the line that
  \<open>getAllProcessInfo\<close> itself writes to the error stream before returning. With
  records, \<open>main\<close> exits with status 0 exactly when the traversal from pid 0 returns;
  it does when the child relation has no cycle and the stack holds more nested calls
  than there are records. When the stack runs out, as it does on every stack when pid 0
  lies on a cycle, the process is killed and \<open>main\<close> returns no status.
\<close>

theorem ending_of_main:
  "main frames OpenFailed =
     \<lparr>ended = Exited 1, stdout = [''Gathering process information...''],
      stderr = [''Error: Could not open /proc directory.'', no_info_message]\<rparr> \<and>
   main frames (Scanned []) =
     \<lparr>ended = Exited 1, stdout = [''Gathering process information...''],
      stderr = [no_info_message]\<rparr> \<and>
   fst (getAllProcessInfo OpenFailed) = fst (getAllProcessInfo (Scanned [])) \<and>
   (processes \<noteq> [] \<longrightarrow>
      main frames (Scanned processes) =
        \<lparr>ended = (case printProcessTree_stack frames processes 0 0 of
                    Returned tree \<Rightarrow> Exited 0
                  | StackExhausted tree \<Rightarrow> Killed),
         stdout = [''Gathering process information...'',
                   ''Building and printing process tree...'', root_line] @
                  map format_line (printed_lines (printProcessTree_stack frames processes 0 0)),
         stderr = []\<rparr>) \<and>
   (processes \<noteq> [] \<longrightarrow> acyclic (edges processes) \<longrightarrow> length processes < frames \<longrightarrow>
      ended (main frames (Scanned processes)) = Exited 0) \<and>
   (processes \<noteq> [] \<longrightarrow> (0, 0) \<in> (edges processes)\<^sup>+ \<longrightarrow>
      ended (main frames (Scanned processes)) = Killed)"
proof -
  have run: "main frames (Scanned processes) =
        \<lparr>ended = (case printProcessTree_stack frames processes 0 0 of
                    Returned tree \<Rightarrow> Exited 0
                  | StackExhausted tree \<Rightarrow> Killed),
         stdout = [''Gathering process information...'',
                   ''Building and printing process tree...'', root_line] @
                  map format_line (printed_lines (printProcessTree_stack frames processes 0 0)),
         stderr = []\<rparr>"
    if "processes \<noteq> []"
    using that by (simp add: main_def split: outcome.splits)
  have ok: "ended (main frames (Scanned processes)) = Exited 0"
    if "processes \<noteq> []" "acyclic (edges processes)" "length processes < frames"
  proof -
    from stack_returns_length [OF that(2,3)] obtain out where
      "printProcessTree_stack frames processes 0 0 = Returned out" by blast
    then show ?thesis by (simp add: run [OF that(1)])
  qed
  have killed: "ended (main frames (Scanned processes)) = Killed"
    if "processes \<noteq> []" "(0, 0) \<in> (edges processes)\<^sup>+"
  proof -
    from stack_on_cycle [OF that(2)] obtain out where
      "printProcessTree_stack frames processes 0 0 = StackExhausted out" by blast
    then show ?thesis by (simp add: run [OF that(1)])
  qed
  show ?thesis using run ok killed by (simp add: main_def)
qed

text \<open>
  C5 on \<open>tree_records\<close> with five frames (status 0 and the lines of the tree), and on
  the record that is its own parent (killed).
\<close>

theorem ending_of_main_witness:
  "tree_records \<noteq> [] \<and> acyclic (edges tree_records) \<and> length tree_records < 5 \<and>
   ended (main 5 (Scanned tree_records)) = Exited 0 \<and>
   main 5 (Scanned tree_records) =
     \<lparr>ended = Exited 0,
      stdout = [''Gathering process information...'',
                ''Building and printing process tree...'',
                ''Root (System) (PID: 0, PPID: 0)'',
                ''+-- init (PID: 1, PPID: 0)'',
                ''  +-- shell (PID: 2, PPID: 1)'',
                ''    +-- child (PID: 4, PPID: 2)'',
                ''  +-- editor (PID: 3, PPID: 1)''],
      stderr = []\<rparr> \<and>
   self_parent_records \<noteq> [] \<and> (0, 0) \<in> (edges self_parent_records)\<^sup>+ \<and>
   ended (main 5 (Scanned self_parent_records)) = Killed"
proof -
  have ne: "tree_records \<noteq> []" and len: "length tree_records < 5"
    by (simp_all add: tree_records_def)
  have ne': "self_parent_records \<noteq> []" by (simp add: self_parent_records_def)
  from ending_of_main [of 5 tree_records] ne tree_acyclic len
  have "ended (main 5 (Scanned tree_records)) = Exited 0" by blast
  moreover from ending_of_main [of 5 self_parent_records] ne' zero_on_self_cycle
  have "ended (main 5 (Scanned self_parent_records)) = Killed" by blast
  ultimately show ?thesis
    using ne tree_acyclic len tree_main_5 ne' zero_on_self_cycle by blast
qed

text \<open>
  C5 as stated fails. One record that is its own parent under pid 0 is not an empty
  result, yet the process is killed instead of exiting with success, and no stack is
  large enough for the traversal to return; \<open>tree_records\<close> has no cycle and the
  process is killed all the same when the stack holds two frames only. An unreadable
  \<open>/proc\<close> reaches \<open>main\<close> as the same empty vector, and ends with the same status,
  as a scan that found nothing.
\<close>

theorem main_killed_or_same_empty_vector:
  "fst (getAllProcessInfo (Scanned self_parent_records)) \<noteq> [] \<and>
   ended (main 3 (Scanned self_parent_records)) = Killed \<and>
   printProcessTree self_parent_records 0 0 = None \<and>
   acyclic (edges tree_records) \<and> ended (main 2 (Scanned tree_records)) = Killed \<and>
   fst (getAllProcessInfo OpenFailed) = fst (getAllProcessInfo (Scanned [])) \<and>
   ended (main 3 OpenFailed) = ended (main 3 (Scanned []))"
proof -
  have "printProcessTree self_parent_records 0 0 = None"
    using zero_on_self_cycle by (rule printProcessTree_on_cycle)
  moreover from stack_on_cycle [OF zero_on_self_cycle, of 3 0] obtain out where
    "printProcessTree_stack 3 self_parent_records 0 0 = StackExhausted out" by blast
  then have "ended (main 3 (Scanned self_parent_records)) = Killed"
    by (simp add: main_def self_parent_records_def)
  moreover have "ended (main 2 (Scanned tree_records)) = Killed"
    using tree_stack_2 by (simp add: main_def) (simp add: tree_records_def)
  ultimately show ?thesis
    using tree_acyclic by (simp add: main_def self_parent_records_def)
qed

section \<open>Facts about the router\<close>

subsection \<open>Letter case\<close>







lemma upcase_to_s_idem: "upcase (upcase (to_s m)) = upcase (to_s m)"
  by (cases m) (simp_all add: upcase_def upcase_char_def letter_pairs_def)


subsection \<open>Lookup and registration\<close>


lemma dispatch_after_define:
  assumes "upcase v = upcase (to_s m)"
  shows "fst (dispatch (snd (define_method m p blk r)) v p) =
           (case blk of Some b \<Rightarrow> b () | None \<Rightarrow> ''404 Not Found'')"
  using assms
  by (simp add: dispatch_def define_method_def routes_fetch_def Let_def
      split: option.splits prod.splits)


lemma registered_dispatch:
  "registered (snd (snd (dispatch r v p))) key q = registered r key q"
  by (auto simp: dispatch_def registered_def routes_fetch_def Let_def
      split: option.splits prod.splits)

lemma routes_dispatch:
  "routes (snd (snd (dispatch r v p))) =
     (case routes r (upcase v) of
        Some h \<Rightarrow> routes r
      | None \<Rightarrow> (routes r)(upcase v \<mapsto> Map.empty))"
  by (auto simp: dispatch_def routes_fetch_def Let_def split: option.splits prod.splits)

lemma dispatch_no_route:
  assumes "routes r (upcase v) = None \<or> (\<exists>h. routes r (upcase v) = Some h \<and> h p = None)"
  shows "dispatch r v p =
           (''404 Not Found'', [''-> No route matched: '' @ upcase v @ '' '' @ p],
            snd (routes_fetch r (upcase v)))"
  using assms
  by (auto simp: dispatch_def routes_fetch_def Let_def split: option.splits prod.splits)

text \<open>
  C4 (amended): \<open>dispatch\<close> never changes which action the table holds for any verb
  key and path. Its only change to \<open>@routes\<close> is that a verb key with no entry gets an
  empty path table (the default block of the hash runs on the lookup); a key that is
  there leaves \<open>@routes\<close> as it was.
\<close>

theorem dispatch_keeps_registered_routes:
  "(\<forall>key q. registered (snd (snd (dispatch r v p))) key q = registered r key q) \<and>
   routes (snd (snd (dispatch r v p))) =
     (case routes r (upcase v) of
        Some h \<Rightarrow> routes r
      | None \<Rightarrow> (routes r)(upcase v \<mapsto> Map.empty))"
  by (simp add: registered_dispatch routes_dispatch)

text \<open>
  C4 as stated fails: on the new router, dispatching POST /unregistered leaves an
  entry for the key POST in \<open>@routes\<close> that was not there before.
\<close>

theorem dispatch_adds_verb_key:
  "routes (snd (snd (dispatch initialize ''POST'' ''/unregistered''))) ''POST'' = Some Map.empty \<and>
   routes initialize ''POST'' = None"
  by (simp add: routes_dispatch initialize_def upcase_def upcase_char_def letter_pairs_def)



text \<open>
  C8: after two registrations of the same method name and path, first with action A
  and then with action B, dispatching that verb (as the symbol's name or in capitals)
  and path returns what B returns.
\<close>

theorem last_registration_wins:
  "fst (dispatch (snd (define_method m p (Some B) (snd (define_method m p (Some A) r))))
          (to_s m) p) = B () \<and>
   fst (dispatch (snd (define_method m p (Some B) (snd (define_method m p (Some A) r))))
          (upcase (to_s m)) p) = B ()"
  using dispatch_after_define [of "to_s m" m p "Some B" "snd (define_method m p (Some A) r)"]
    dispatch_after_define [of "upcase (to_s m)" m p "Some B" "snd (define_method m p (Some A) r)"]
  by (simp add: upcase_to_s_idem)

text \<open>
  C9: when the table is empty, or holds nothing under the verb, or holds nothing for
  the path under the verb, \<open>dispatch\<close> returns the string \<open>404 Not Found\<close> as its
  response.
\<close>

theorem no_route_gives_404:
  assumes "routes r = Map.empty \<or> routes r (upcase v) = None \<or>
           (\<exists>h. routes r (upcase v) = Some h \<and> h p = None)"
  shows "fst (dispatch r v p) = ''404 Not Found''"
proof -
  from assms have "routes r (upcase v) = None \<or> (\<exists>h. routes r (upcase v) = Some h \<and> h p = None)"
    by auto
  then show ?thesis by (simp add: dispatch_no_route)
qed

text \<open>C9 on the new router: POST /unregistered.\<close>

theorem no_route_gives_404_witness:
  "routes initialize = Map.empty \<and>
   fst (dispatch initialize ''POST'' ''/unregistered'') = ''404 Not Found''"
proof -
  have e: "routes initialize = Map.empty" by (simp add: initialize_def)
  then have "routes initialize = Map.empty \<or> routes initialize (upcase ''POST'') = None \<or>
           (\<exists>h. routes initialize (upcase ''POST'') = Some h \<and> h ''/unregistered'' = None)"
    by simp
  from e no_route_gives_404 [OF this] show ?thesis by simp
qed

end
